theory Spec2Isabelle
  imports Complex_Main "HOL-Library.AList"
begin

section \<open>Python strings\<close>

text \<open>
  A Python \<open>str\<close> is a sequence of Unicode code points and \<open>len\<close> counts code points, so
  a string is modelled as the list of its code points. \<open>py\<close> reads an ASCII literal.
\<close>

type_synonym pystr = "nat list"

definition py :: "string \<Rightarrow> pystr" where
  "py s = map of_char s"

text \<open>
  The characters for which \<open>str.isspace\<close> holds. \<open>str.strip()\<close>, \<open>str.split()\<close> and the
  regular expression class \<open>\s\<close> (on \<open>str\<close> patterns) all use this one set.
\<close>

definition isspace :: "nat \<Rightarrow> bool" where
  "isspace c \<longleftrightarrow>
     (0x09 \<le> c \<and> c \<le> 0x0D) \<or> (0x1C \<le> c \<and> c \<le> 0x20) \<or> c = 0x85 \<or> c = 0xA0 \<or>
     c = 0x1680 \<or> (0x2000 \<le> c \<and> c \<le> 0x200A) \<or> c = 0x2028 \<or> c = 0x2029 \<or>
     c = 0x202F \<or> c = 0x205F \<or> c = 0x3000"

text \<open>\<open>text.strip()\<close>: whitespace removed at both ends.\<close>

definition strip :: "pystr \<Rightarrow> pystr" where
  "strip t = rev (dropWhile isspace (rev (dropWhile isspace t)))"

section \<open>The text sanitizer: \<open>AIVtuber._clean_response\<close>\<close>

record config =
  max_response_length :: int

text \<open>
  \<open>re.sub(r'[\U00010000-\U0010FFFF]', '', text)\<close>: every code point outside the basic
  multilingual plane is deleted.
\<close>

definition sub_astral :: "pystr \<Rightarrow> pystr" where
  "sub_astral t = filter (\<lambda>c. \<not> (0x10000 \<le> c \<and> c \<le> 0x10FFFF)) t"

text \<open>
  \<open>re.sub(r'\*[^*]*\*', '', text)\<close>: the scan goes left to right. At an asterisk (code
  point 42) the class \<open>[^*]*\<close> runs to the next asterisk; when there is one, the span
  with both asterisks is deleted and the scan goes on behind it; when there is none, the
  pattern does not match here and the asterisk stays.
\<close>

function sub_asides :: "pystr \<Rightarrow> pystr" where
  "sub_asides [] = []"
| "sub_asides (c # cs) =
     (if c = 42 then
        (case dropWhile (\<lambda>x. x \<noteq> 42) cs of
           [] \<Rightarrow> c # sub_asides cs
         | _ # rest \<Rightarrow> sub_asides rest)
      else c # sub_asides cs)"
  by pat_completeness auto
termination
proof (relation "measure length")
  fix c :: nat and cs x21 and x22 :: pystr
  assume "dropWhile (\<lambda>x. x \<noteq> 42) cs = x21 # x22"
  then have "length x22 < length (dropWhile (\<lambda>x. x \<noteq> 42) cs)" by simp
  also have "\<dots> \<le> length cs" by (rule length_dropWhile_le)
  finally show "(x22, c # cs) \<in> measure length" by simp
qed auto

text \<open>
  \<open>re.sub(r'^[^:]+:\s+', '', text)\<close>: \<open>^\<close> matches at the start of the string only. The
  match needs at least one character before the first colon (code point 58) and at least
  one whitespace character right behind that colon; it takes the whole run of whitespace.
\<close>

definition sub_prefix :: "pystr \<Rightarrow> pystr" where
  "sub_prefix t =
     (case dropWhile (\<lambda>x. x \<noteq> 58) t of
        colon # s # rest \<Rightarrow>
          if takeWhile (\<lambda>x. x \<noteq> 58) t \<noteq> [] \<and> isspace s then dropWhile isspace rest else t
      | _ \<Rightarrow> t)"

text \<open>
  \<open>re.split(r'(?<=[.!?])\s+', text)\<close>: a separator is a maximal run of whitespace whose
  first character stands right behind \<open>.\<close>, \<open>!\<close> or \<open>?\<close> (code points 46, 33, 63).
  \<open>prev\<close> is the character before the scan position, \<open>cur\<close> the piece read so far.
\<close>

definition ends_sentence :: "nat option \<Rightarrow> bool" where
  "ends_sentence prev \<longleftrightarrow> prev = Some 46 \<or> prev = Some 33 \<or> prev = Some 63"

function split_from :: "nat option \<Rightarrow> pystr \<Rightarrow> pystr \<Rightarrow> pystr list" where
  "split_from prev cur [] = [cur]"
| "split_from prev cur (c # cs) =
     (if isspace c \<and> ends_sentence prev
      then cur # split_from (Some (last (c # takeWhile isspace cs))) [] (dropWhile isspace cs)
      else split_from (Some c) (cur @ [c]) cs)"
  by pat_completeness auto
termination
  by (relation "measure (\<lambda>(prev, cur, t). length t)")
     (auto simp: length_dropWhile_le less_Suc_eq_le)

definition split_sentences :: "pystr \<Rightarrow> pystr list" where
  "split_sentences t = split_from None [] t"

text \<open>
  The loop over the sentences: a sentence is appended, with one space behind it, while
  \<open>len(result + sentence)\<close> stays within the limit; the first sentence that does not fit
  ends the loop.
\<close>

fun keep_sentences :: "int \<Rightarrow> pystr \<Rightarrow> pystr list \<Rightarrow> pystr" where
  "keep_sentences m result [] = result"
| "keep_sentences m result (sentence # rest) =
     (if int (length (result @ sentence)) \<le> m
      then keep_sentences m (result @ sentence @ [32]) rest
      else result)"

definition clean_response :: "config \<Rightarrow> pystr \<Rightarrow> pystr" where
  "clean_response cfg raw =
     (let text = strip (sub_prefix (sub_asides (sub_astral raw)))
      in if int (length text) > max_response_length cfg
         then strip (keep_sentences (max_response_length cfg) [] (split_sentences text))
         else text)"

text \<open>The example input of the specification.\<close>

definition nova :: pystr where
  "nova = py ''Nova: *giggles* I'm *so* happy to see you! Extra sentence overflow here.''"

section \<open>Notifications: \<open>TrackingSystem.track_workflow\<close> and \<open>track_error\<close>\<close>

text \<open>
  The two notification channels are queues that the pipeline only appends to:
  \<open>track_workflow\<close> puts the pair \<open>(phase, details)\<close> on the workflow queue,
  \<open>track_error\<close> puts the message on the error queue.
\<close>

record tracking =
  workflow_queue :: "(pystr \<times> pystr) list"
  error_queue :: "pystr list"

definition track_workflow :: "pystr \<Rightarrow> pystr \<Rightarrow> tracking \<Rightarrow> tracking" where
  "track_workflow phase details tr = tr\<lparr>workflow_queue := workflow_queue tr @ [(phase, details)]\<rparr>"

definition track_error :: "pystr \<Rightarrow> tracking \<Rightarrow> tracking" where
  "track_error error_msg tr = tr\<lparr>error_queue := error_queue tr @ [error_msg]\<rparr>"

text \<open>Decimal rendering of the integers that the f-strings format.\<close>

fun str_nat :: "nat \<Rightarrow> pystr" where
  "str_nat n = (if n < 10 then [48 + n] else str_nat (n div 10) @ [48 + n mod 10])"

declare str_nat.simps [simp del]

definition str_int :: "int \<Rightarrow> pystr" where
  "str_int i = (if i < 0 then 45 # str_nat (nat (- i)) else str_nat (nat i))"

section \<open>The generation client: \<open>AIVtuber._call_deepseek_api\<close>\<close>

text \<open>
  What one attempt of the HTTP request meets. A response carries its status code, its
  text and, for status 200, what \<open>response.json()\<close> and the path
  \<open>["choices"][0]["message"]["content"]\<close> give: \<open>Invalid\<close> when \<open>json()\<close> raises,
  \<open>Missing\<close> when the path or the sanitizer raises on what is found there, \<open>Content\<close>
  for a string. \<open>Timeout\<close> is \<open>httpx.ReadTimeout\<close> or \<open>httpx.ConnectTimeout\<close>,
  \<open>Failure\<close> any other \<open>Exception\<close>; both carry \<open>str(e)\<close>.
\<close>

datatype body = Invalid pystr | Missing pystr | Content pystr

datatype outcome = Response int pystr body | Timeout pystr | Failure pystr

text \<open>
  How the body of the outer \<open>try\<close> ends: with a \<open>return\<close>, with an exception that
  reaches the outer handler, or by running off the end of the \<open>for\<close> loop.
\<close>

datatype flow = Returned pystr | Raised pystr | Completed

definition max_retries :: nat where
  "max_retries = 3"

definition apology :: pystr where
  "apology = py ''I apologize, but I'm having trouble connecting to my thoughts right now. Perhaps we could try again in a moment?''"

text \<open>
  The loop \<open>for attempt in range(max_retries)\<close>. The request that is sent (headers,
  prompt, payload) does not influence the control flow; the service's answer to attempt
  \<open>i\<close> is \<open>api i\<close>. The back-off sleep between attempts changes no state.
\<close>

fun attempts :: "config \<Rightarrow> (nat \<Rightarrow> outcome) \<Rightarrow> nat list \<Rightarrow> tracking \<Rightarrow> flow \<times> tracking" where
  "attempts cfg api [] tr = (Completed, tr)"
| "attempts cfg api (attempt # rest) tr =
     (let tr = track_workflow (py ''API'')
                 (py ''Attempt '' @ str_nat (attempt + 1) @ py ''/'' @ str_nat max_retries @
                  py '' with '' @ str_nat (15 * (attempt + 1)) @ py ''.0s timeout'') tr
      in case api attempt of
           Response status_code text b \<Rightarrow>
             if status_code = 200 then
               (case b of
                  Invalid e \<Rightarrow> (Raised e, tr)
                | Missing e \<Rightarrow>
                    (Raised e, track_workflow (py ''API'') (py ''Success: Got response from API'') tr)
                | Content c \<Rightarrow>
                    (Returned (clean_response cfg c),
                     track_workflow (py ''API'') (py ''Success: Got response from API'') tr))
             else
               (let error_msg = py ''API error '' @ str_int status_code @ py '': '' @ text;
                    tr = track_error error_msg tr
                in if attempt = max_retries - 1 then (Raised error_msg, tr)
                   else attempts cfg api rest tr)
         | Timeout e \<Rightarrow>
             (let tr = track_error (py ''Timeout on attempt '' @ str_nat (attempt + 1) @ py '': '' @ e) tr
              in if attempt = max_retries - 1 then (Raised e, tr)
                 else attempts cfg api rest tr)
         | Failure e \<Rightarrow> (Raised e, tr))"

text \<open>
  The whole call. The result is \<open>None\<close> where the Python function would run off its
  end and return \<open>None\<close>.
\<close>

definition call_deepseek_api ::
  "config \<Rightarrow> (nat \<Rightarrow> outcome) \<Rightarrow> pystr \<Rightarrow> tracking \<Rightarrow> pystr option \<times> tracking" where
  "call_deepseek_api cfg api user_message tr =
     (let tr = track_workflow (py ''API'')
                 (py ''Starting API call for: '' @ take 50 user_message @ py ''...'') tr
      in case attempts cfg api [0..<max_retries] tr of
           (Returned r, tr) \<Rightarrow> (Some r, tr)
         | (Raised e, tr) \<Rightarrow>
             (Some apology,
              track_error (py ''API call failed after '' @ str_nat max_retries @
                           py '' attempts: '' @ e) tr)
         | (Completed, tr) \<Rightarrow> (None, tr))"

text \<open>
  A service on which every attempt times out, a tracking system that has recorded
  nothing yet, and the configuration of the specification's example.
\<close>

definition always_timeout :: "nat \<Rightarrow> outcome" where
  "always_timeout attempt = Timeout (py ''timed out'')"

definition no_tracking :: tracking where
  "no_tracking = \<lparr>workflow_queue = [], error_queue = []\<rparr>"

definition cap40 :: config where
  "cap40 = \<lparr>max_response_length = 40\<rparr>"

text \<open>
  An attempt after which the loop goes on to the next attempt (or, on the last attempt,
  raises): a timeout, or a response whose status is not 200.
\<close>

definition retried :: "outcome \<Rightarrow> bool" where
  "retried r =
     (case r of
        Response status_code text b \<Rightarrow> status_code \<noteq> 200
      | Timeout e \<Rightarrow> True
      | Failure e \<Rightarrow> False)"

text \<open>
  A service that answers the first attempt with status 500 and the second with status
  200 and the example input as content.
\<close>

definition second_try :: "nat \<Rightarrow> outcome" where
  "second_try attempt =
     (if attempt = 0 then Response 500 (py ''busy'') (Invalid []) else Response 200 [] (Content nova))"

section \<open>The response cache: \<open>ResponseCache\<close>\<close>

text \<open>
  The cache is a Python \<open>dict\<close>: its keys are unique and it iterates in insertion
  order, so it is an association list; \<open>AList.update\<close> is \<open>cache[query] = response\<close>
  (an existing key keeps its place, a new key goes to the end).
\<close>

record response_cache =
  cache :: "(pystr \<times> pystr) list"
  cache_size :: int
  similarity_threshold :: rat

definition ResponseCache :: "int \<Rightarrow> rat \<Rightarrow> response_cache" where
  "ResponseCache capacity threshold =
     \<lparr>cache = [], cache_size = capacity, similarity_threshold = threshold\<rparr>"

datatype error = ZeroDivisionError | StopIteration

text \<open>
  \<open>str.split()\<close> without arguments: the maximal runs of characters that are not
  whitespace. \<open>cur\<close> is the word read so far.
\<close>

fun split_words :: "pystr \<Rightarrow> pystr \<Rightarrow> pystr list" where
  "split_words cur [] = (if cur = [] then [] else [cur])"
| "split_words cur (c # cs) =
     (if isspace c then (if cur = [] then split_words [] cs else cur # split_words [] cs)
      else split_words (cur @ [c]) cs)"

definition split :: "pystr \<Rightarrow> pystr list" where
  "split t = split_words [] t"

text \<open>Python's \<open>/\<close> on integers raises on a zero divisor.\<close>

definition true_div :: "nat \<Rightarrow> nat \<Rightarrow> error + rat" where
  "true_div a b = (if b = 0 then Inl ZeroDivisionError else Inr (of_nat a / of_nat b))"

text \<open>
  \<open>ResponseCache._compute_similarity\<close>. Python's \<open>str.lower\<close> follows the Unicode case
  tables, which are not part of the repository: the function is the parameter \<open>lower\<close>.
  Python rounds the quotient to a binary64 float; the model keeps the exact rational,
  which is the same number whenever the quotient is zero.
\<close>

definition compute_similarity :: "(pystr \<Rightarrow> pystr) \<Rightarrow> pystr \<Rightarrow> pystr \<Rightarrow> error + rat" where
  "compute_similarity lower s1 s2 =
     (let words1 = set (split (lower s1));
          words2 = set (split (lower s2));
          intersection = card (words1 \<inter> words2);
          union = card (words1 \<union> words2)
      in if union > 0 then true_div intersection union else Inr 0)"

text \<open>\<open>ResponseCache.get\<close>: the loop over \<open>self.cache.items()\<close>.\<close>

fun get_items :: "(pystr \<Rightarrow> pystr) \<Rightarrow> rat \<Rightarrow> pystr \<Rightarrow> (pystr \<times> pystr) list \<Rightarrow> error + pystr option" where
  "get_items lower threshold query [] = Inr None"
| "get_items lower threshold query ((cached_query, response) # rest) =
     (case compute_similarity lower query cached_query of
        Inl e \<Rightarrow> Inl e
      | Inr sim \<Rightarrow>
          if sim > threshold then Inr (Some response)
          else get_items lower threshold query rest)"

definition get :: "(pystr \<Rightarrow> pystr) \<Rightarrow> response_cache \<Rightarrow> pystr \<Rightarrow> error + pystr option" where
  "get lower self query = get_items lower (similarity_threshold self) query (cache self)"

text \<open>
  \<open>ResponseCache.add\<close>. \<open>next(iter(self.cache))\<close> is the oldest key and raises
  \<open>StopIteration\<close> on an empty dict; \<open>pop\<close> deletes that key.
\<close>

definition add :: "response_cache \<Rightarrow> pystr \<Rightarrow> pystr \<Rightarrow> error + response_cache" where
  "add self query response =
     (if int (length (cache self)) \<ge> cache_size self then
        (case cache self of
           [] \<Rightarrow> Inl StopIteration
         | (oldest, _) # _ \<Rightarrow>
             Inr (self\<lparr>cache := AList.update query response (AList.delete oldest (cache self))\<rparr>))
      else Inr (self\<lparr>cache := AList.update query response (cache self)\<rparr>))"

text \<open>
  A sequence of inserts. An insert that raises leaves the cache as it was, and the
  sequence goes on with the next insert.
\<close>

fun add_all :: "response_cache \<Rightarrow> (pystr \<times> pystr) list \<Rightarrow> response_cache" where
  "add_all self [] = self"
| "add_all self ((query, response) # rest) =
     (case add self query response of
        Inl e \<Rightarrow> add_all self rest
      | Inr self' \<Rightarrow> add_all self' rest)"

text \<open>\<open>str.lower\<close> on ASCII text: the letters A to Z move to a to z.\<close>

definition ascii_lower :: "pystr \<Rightarrow> pystr" where
  "ascii_lower t = map (\<lambda>c. if 65 \<le> c \<and> c \<le> 90 then c + 32 else c) t"

text \<open>A default cache into which the key of two spaces has been inserted.\<close>

definition whitespace_cached :: response_cache where
  "whitespace_cached =
     \<lparr>cache = [(py ''  '', py ''hi'')], cache_size = 100, similarity_threshold = 4 / 5\<rparr>"

section \<open>The audio sink: \<open>AudioPlayer\<close>\<close>

text \<open>
  An audio buffer is its list of samples. The queue holds buffers and the \<open>None\<close>
  that \<open>stop\<close> puts. Beside the fields of the class, the state holds where the consumer
  thread (\<open>_audio_player_loop\<close>) and the caller of \<open>stop\<close> stand.
\<close>

type_synonym audio = "rat list"

datatype consumer = LoopHead | Waiting | Playing | Exited

datatype stopper = Idle | Putting | Joining | Stopped

record audio_player =
  audio_queue :: "audio option list"
  max_queue_size :: int
  is_speaking :: bool
  should_stop :: bool
  audio_thread :: consumer
  stop_call :: stopper

definition AudioPlayer :: "int \<Rightarrow> audio_player" where
  "AudioPlayer n =
     \<lparr>audio_queue = [], max_queue_size = n, is_speaking = False, should_stop = False,
      audio_thread = LoopHead, stop_call = Idle\<rparr>"

text \<open>\<open>queue.Queue.full\<close>: a queue with \<open>maxsize \<le> 0\<close> is never full.\<close>

definition full :: "audio_player \<Rightarrow> bool" where
  "full p \<longleftrightarrow> 0 < max_queue_size p \<and> max_queue_size p \<le> int (length (audio_queue p))"

text \<open>\<open>AudioPlayer.play\<close>: \<open>put(audio_data, block=False)\<close>; on a full queue the buffer is dropped.\<close>

definition play :: "audio_player \<Rightarrow> audio \<Rightarrow> audio_player" where
  "play p audio_data =
     (if full p then p else p\<lparr>audio_queue := audio_queue p @ [Some audio_data]\<rparr>)"

text \<open>
  The steps of the threads that share an \<open>AudioPlayer\<close>.
  The consumer: the loop test reads \<open>should_stop\<close>; \<open>get(timeout=1)\<close> takes the oldest
  item, or raises \<open>queue.Empty\<close> on an empty queue when the second is over; a buffer is
  played to its end (or the playback raises), \<open>None\<close> is skipped.
  A producer calls \<open>play\<close>.
  The caller of \<open>stop\<close>: it sets \<open>should_stop\<close>; its \<open>put(None)\<close> has no timeout and
  returns once the queue has room; \<open>join(timeout=1)\<close> returns when the thread has ended
  or the second is over.
\<close>

inductive player_step :: "audio_player \<Rightarrow> audio_player \<Rightarrow> bool" where
  loop_exit: "audio_thread p = LoopHead \<Longrightarrow> should_stop p \<Longrightarrow>
     player_step p (p\<lparr>audio_thread := Exited\<rparr>)"
| loop_enter: "audio_thread p = LoopHead \<Longrightarrow> \<not> should_stop p \<Longrightarrow>
     player_step p (p\<lparr>audio_thread := Waiting\<rparr>)"
| get_buffer: "audio_thread p = Waiting \<Longrightarrow> audio_queue p = Some a # q \<Longrightarrow>
     player_step p (p\<lparr>audio_queue := q, is_speaking := True, audio_thread := Playing\<rparr>)"
| get_none: "audio_thread p = Waiting \<Longrightarrow> audio_queue p = None # q \<Longrightarrow>
     player_step p (p\<lparr>audio_queue := q, audio_thread := LoopHead\<rparr>)"
| get_empty: "audio_thread p = Waiting \<Longrightarrow> audio_queue p = [] \<Longrightarrow>
     player_step p (p\<lparr>audio_thread := LoopHead\<rparr>)"
| played: "audio_thread p = Playing \<Longrightarrow>
     player_step p (p\<lparr>is_speaking := False, audio_thread := LoopHead\<rparr>)"
| produce: "player_step p (play p a)"
| stop_flag: "stop_call p = Idle \<Longrightarrow>
     player_step p (p\<lparr>should_stop := True, stop_call := Putting\<rparr>)"
| stop_put: "stop_call p = Putting \<Longrightarrow> \<not> full p \<Longrightarrow>
     player_step p (p\<lparr>audio_queue := audio_queue p @ [None], stop_call := Joining\<rparr>)"
| stop_join: "stop_call p = Joining \<Longrightarrow>
     player_step p (p\<lparr>stop_call := Stopped\<rparr>)"

text \<open>
  The state in which \<open>stop\<close> is called on a full queue of ten buffers while the consumer
  plays an eleventh.
\<close>

definition full_while_playing :: audio_player where
  "full_while_playing =
     \<lparr>audio_queue = replicate 10 (Some []), max_queue_size = 10, is_speaking = True,
      should_stop = False, audio_thread = Playing, stop_call = Idle\<rparr>"

definition blocked_in_put :: audio_player where
  "blocked_in_put =
     \<lparr>audio_queue = replicate 10 (Some []), max_queue_size = 10, is_speaking = False,
      should_stop = True, audio_thread = Exited, stop_call = Putting\<rparr>"

section \<open>The orchestrator: \<open>AIVtuber.process_chat.process_message\<close>\<close>

record chat_item =
  author :: pystr
  message :: pystr

text \<open>
  What the synthesizer does with a text: the first segment of the generator, \<open>None\<close>
  for the audio, or an exception with its \<open>str(e)\<close>.
\<close>

datatype tts_result = Segment audio | NoAudio | TtsError pystr

text \<open>
  What one run of \<open>process_message\<close> meets outside the program: the two readings of
  \<open>time.time()\<close>, the generation service, the subtitle file (\<open>Some e\<close>: opening it
  raises \<open>e\<close>) and the synthesizer.
\<close>

record world =
  time_enter :: rat
  time_leave :: rat
  service :: "nat \<Rightarrow> outcome"
  subtitle_error :: "pystr option"
  tts :: "pystr \<Rightarrow> tts_result"

record vtuber =
  vt_config :: config
  audio_player :: audio_player
  response_cache :: response_cache
  last_response_time :: rat
  rate_limit_delay :: rat
  vt_tracking :: tracking
  output_txt :: pystr

text \<open>\<open>AIVtuber.__init__\<close>, for a configuration and an empty tracking system.\<close>

definition AIVtuber :: "config \<Rightarrow> vtuber" where
  "AIVtuber cfg =
     \<lparr>vt_config = cfg, audio_player = AudioPlayer 10,
      response_cache = ResponseCache 100 (4 / 5), last_response_time = 0,
      rate_limit_delay = 1, vt_tracking = \<lparr>workflow_queue = [], error_queue = []\<rparr>,
      output_txt = []\<rparr>"

definition write_subtitle :: "world \<Rightarrow> pystr \<Rightarrow> vtuber \<Rightarrow> vtuber" where
  "write_subtitle w text self =
     (case subtitle_error w of
        None \<Rightarrow> self\<lparr>output_txt := text\<rparr>
      | Some e \<Rightarrow>
          self\<lparr>vt_tracking := track_error (py ''Failed to write subtitle: '' @ e) (vt_tracking self)\<rparr>)"

definition text_to_speech_async :: "world \<Rightarrow> pystr \<Rightarrow> vtuber \<Rightarrow> vtuber" where
  "text_to_speech_async w text self =
     (let self = self\<lparr>vt_tracking :=
            track_workflow (py ''TTS'')
              (py ''Converting text to speech: '' @ take 50 text @ py ''...'') (vt_tracking self)\<rparr>
      in case tts w text of
           Segment a \<Rightarrow> self\<lparr>audio_player := play (audio_player self) a\<rparr>
         | NoAudio \<Rightarrow> self
         | TtsError e \<Rightarrow>
             self\<lparr>vt_tracking := track_error (py ''TTS error: '' @ e) (vt_tracking self)\<rparr>)"

text \<open>
  The duration of the rate-limit sleep at the head of the critical section; the sleep
  changes no state.
\<close>

definition rate_limit_sleep :: "vtuber \<Rightarrow> rat \<Rightarrow> rat" where
  "rate_limit_sleep self current_time =
     (if current_time - last_response_time self < rate_limit_delay self
      then rate_limit_delay self - (current_time - last_response_time self)
      else 0)"

text \<open>
  The clock reading at which a task that entered the critical section in world \<open>w\<close>
  leaves its rate-limit sleep and goes on to the generation call, the sleep lasting as
  long as it was asked to.
\<close>

definition gate_passed :: "vtuber \<Rightarrow> world \<Rightarrow> rat" where
  "gate_passed self w = time_enter w + rate_limit_sleep self (time_enter w)"

text \<open>
  The body of \<open>process_message\<close> under the processing lock. \<open>if response:\<close> holds for a
  string that is not empty.
\<close>

definition process_message :: "world \<Rightarrow> chat_item \<Rightarrow> vtuber \<Rightarrow> vtuber" where
  "process_message w item self =
     (let (response, tr) = call_deepseek_api (vt_config self) (service w) (message item) (vt_tracking self);
          self = self\<lparr>vt_tracking := tr\<rparr>;
          self = (case response of
                    Some r \<Rightarrow>
                      if r \<noteq> [] then text_to_speech_async w r (write_subtitle w r self)
                      else self
                  | None \<Rightarrow> self)
      in self\<lparr>last_response_time := time_leave w\<rparr>)"

text \<open>
  A chat item whose message is already a key of the cache, a world in which the service
  answers the first attempt with status 200, and the program state with that cache.
\<close>

definition greeting :: chat_item where
  "greeting = \<lparr>author = py ''bob'', message = py ''hello there''\<rparr>"

definition answering :: world where
  "answering =
     \<lparr>time_enter = 5, time_leave = 6,
      service = (\<lambda>attempt. Response 200 [] (Content (py ''Hey there''))),
      subtitle_error = None, tts = (\<lambda>text. NoAudio)\<rparr>"

definition primed :: vtuber where
  "primed = (AIVtuber cap40)\<lparr>response_cache :=
     \<lparr>cache = [(py ''hello there'', py ''Hi!'')], cache_size = 100, similarity_threshold = 4 / 5\<rparr>\<rparr>"

text \<open>
  Two runs back to back: the first task reads the clock at 10 on entry and stamps its
  completion at 10.2; the second task takes the lock the moment the first leaves it and
  reads 10.2 on entry.
\<close>

definition quick :: world where
  "quick =
     \<lparr>time_enter = 10, time_leave = 51 / 5,
      service = (\<lambda>attempt. Response 200 [] (Content (py ''Hey there''))),
      subtitle_error = None, tts = (\<lambda>text. NoAudio)\<rparr>"

definition following :: world where
  "following =
     \<lparr>time_enter = 51 / 5, time_leave = 11 + 2 / 5,
      service = (\<lambda>attempt. Response 200 [] (Content (py ''Hey there''))),
      subtitle_error = None, tts = (\<lambda>text. NoAudio)\<rparr>"

section \<open>Tasks and the processing lock\<close>

text \<open>
  \<open>process_chat\<close> creates one task per chat item; each runs \<open>process_message\<close>, whose
  whole body stands under \<open>async with self.processing_lock\<close>. A task is \<open>Queued\<close>
  until it holds the lock; then it passes the rate-limit check, awaits the generation
  call, writes the subtitle, awaits the synthesis (which ends with the buffer put on the
  audio queue), stamps \<open>last_response_time\<close> and leaves the lock. An exception or a
  cancellation inside the block also leaves the lock; a task that is cancelled while it
  waits for the lock ends without ever holding it.
\<close>

datatype stage = Queued | RateLimit | Generating | Subtitle | Synthesizing | Stamp | Done

record scheduler =
  processing_lock :: "nat option"
  stage_of :: "nat \<Rightarrow> stage"

definition idle :: scheduler where
  "idle = \<lparr>processing_lock = None, stage_of = (\<lambda>t. Queued)\<rparr>"

definition move :: "scheduler \<Rightarrow> nat \<Rightarrow> stage \<Rightarrow> scheduler" where
  "move s t g = s\<lparr>stage_of := (stage_of s)(t := g)\<rparr>"

inductive task_step :: "scheduler \<Rightarrow> scheduler \<Rightarrow> bool" where
  acquire: "processing_lock s = None \<Longrightarrow> stage_of s t = Queued \<Longrightarrow>
     task_step s ((move s t RateLimit)\<lparr>processing_lock := Some t\<rparr>)"
| gate: "stage_of s t = RateLimit \<Longrightarrow> task_step s (move s t Generating)"
| response: "stage_of s t = Generating \<Longrightarrow> task_step s (move s t Subtitle)"
| no_response: "stage_of s t = Generating \<Longrightarrow> task_step s (move s t Stamp)"
| subtitle: "stage_of s t = Subtitle \<Longrightarrow> task_step s (move s t Synthesizing)"
| speech: "stage_of s t = Synthesizing \<Longrightarrow> task_step s (move s t Stamp)"
| release: "stage_of s t = Stamp \<Longrightarrow>
     task_step s ((move s t Done)\<lparr>processing_lock := None\<rparr>)"
| abort: "stage_of s t \<noteq> Queued \<Longrightarrow> stage_of s t \<noteq> Done \<Longrightarrow>
     task_step s ((move s t Done)\<lparr>processing_lock := None\<rparr>)"
| abandon: "stage_of s t = Queued \<Longrightarrow> task_step s (move s t Done)"

definition reachable :: "scheduler \<Rightarrow> bool" where
  "reachable s \<longleftrightarrow> task_step\<^sup>*\<^sup>* idle s"

text \<open>Task 0 holds the lock and is inside the synthesis; every other task is queued.\<close>

definition first_synthesizing :: scheduler where
  "first_synthesizing =
     \<lparr>processing_lock = Some 0, stage_of = (\<lambda>t. Queued)(0 := Synthesizing)\<rparr>"

section \<open>Properties of the sanitizer\<close>

lemma strip_Nil: "strip [] = []"
  by (simp add: strip_def)

lemma length_strip_le: "length (strip t) \<le> length t"
proof -
  have "length (strip t) \<le> length (dropWhile isspace t)"
    unfolding strip_def using length_dropWhile_le [of isspace "rev (dropWhile isspace t)"] by simp
  also have "\<dots> \<le> length t" by (rule length_dropWhile_le)
  finally show ?thesis .
qed

lemma strip_snoc_space:
  assumes "isspace c"
  shows "strip (t @ [c]) = strip t"
proof (cases "\<forall>x\<in>set t. isspace x")
  case True
  then have "dropWhile isspace (t @ [c]) = []" "dropWhile isspace t = []"
    using assms by auto
  then show ?thesis unfolding strip_def by (simp del: dropWhile_eq_Nil_conv)
next
  case False
  then have "dropWhile isspace (t @ [c]) = dropWhile isspace t @ [c]"
    by (auto simp: dropWhile_append)
  then show ?thesis using assms by (simp add: strip_def)
qed

lemma dropWhile_fixed: "t = [] \<or> \<not> P (hd t) \<Longrightarrow> dropWhile P t = t"
  by (cases t) auto

lemma last_dropWhile: "dropWhile P xs \<noteq> [] \<Longrightarrow> last (dropWhile P xs) = last xs"
  by (induction xs) (auto split: if_splits)

lemma strip_fixed:
  assumes "t = [] \<or> (\<not> isspace (hd t) \<and> \<not> isspace (last t))"
  shows "strip t = t"
proof (cases "t = []")
  case True
  then show ?thesis by (simp add: strip_def)
next
  case False
  with assms have h: "\<not> isspace (hd t)" and l: "\<not> isspace (last t)" by auto
  have 1: "dropWhile isspace t = t" using False h by (cases t) auto
  have "hd (rev t) = last t" using False by (simp add: hd_rev)
  then have "\<not> isspace (hd (rev t))" using l by simp
  then have 2: "dropWhile isspace (rev t) = rev t" by (intro dropWhile_fixed disjI2)
  show ?thesis by (simp add: strip_def 1 2)
qed

lemma strip_ends:
  "strip t = [] \<or> (\<not> isspace (hd (strip t)) \<and> \<not> isspace (last (strip t)))"
proof (cases "strip t = []")
  case True
  then show ?thesis by simp
next
  case False
  define u where "u = dropWhile isspace t"
  define w where "w = dropWhile isspace (rev u)"
  have s: "strip t = rev w" by (simp add: strip_def u_def w_def)
  with False have w: "w \<noteq> []" by simp
  then have u: "u \<noteq> []" by (auto simp: w_def)
  have "\<not> isspace (hd w)" using w unfolding w_def by (rule hd_dropWhile)
  then have a: "\<not> isspace (last (strip t))" using w by (simp add: s last_rev)
  have "last w = last (rev u)" using w unfolding w_def by (rule last_dropWhile)
  then have "hd (strip t) = hd u" using w u by (simp add: s hd_rev last_rev)
  moreover have "\<not> isspace (hd u)" using u unfolding u_def by (rule hd_dropWhile)
  ultimately show ?thesis using a by simp
qed

lemma strip_strip: "strip (strip t) = strip t"
  by (rule strip_fixed) (rule strip_ends)

lemma filter_dropWhile_le: "length (filter P (dropWhile Q t)) \<le> length (filter P t)"
  by (induction t) auto

lemma filter_strip_le: "length (filter P (strip t)) \<le> length (filter P t)"
proof -
  have "length (filter P (strip t)) = length (filter P (dropWhile isspace (rev (dropWhile isspace t))))"
    by (simp add: strip_def rev_filter [symmetric])
  also have "\<dots> \<le> length (filter P (rev (dropWhile isspace t)))" by (rule filter_dropWhile_le)
  also have "\<dots> = length (filter P (dropWhile isspace t))" by (simp add: rev_filter [symmetric])
  also have "\<dots> \<le> length (filter P t)" by (rule filter_dropWhile_le)
  finally show ?thesis .
qed

lemma filter_sub_prefix_le: "length (filter P (sub_prefix t)) \<le> length (filter P t)"
proof (cases "sub_prefix t = t")
  case True
  then show ?thesis by simp
next
  case False
  then obtain colon s rest where d: "dropWhile (\<lambda>x. x \<noteq> 58) t = colon # s # rest"
    and r: "sub_prefix t = dropWhile isspace rest"
    by (auto simp: sub_prefix_def split: list.splits if_splits)
  have "length (filter P (dropWhile isspace rest)) \<le> length (filter P rest)"
    by (rule filter_dropWhile_le)
  also have "\<dots> \<le> length (filter P (colon # s # rest))" by simp
  also have "\<dots> \<le> length (filter P t)" using filter_dropWhile_le [of P "\<lambda>x. x \<noteq> 58" t] d by simp
  finally show ?thesis using r by simp
qed

lemma filter_sub_asides_le: "length (filter P (sub_asides t)) \<le> length (filter P t)"
proof (induction t rule: sub_asides.induct)
  case 1
  then show ?case by simp
next
  case (2 c cs)
  show ?case
  proof (cases "c = 42")
    case False
    with 2 show ?thesis by simp
  next
    case True
    show ?thesis
    proof (cases "dropWhile (\<lambda>x. x \<noteq> 42) cs")
      case Nil
      have "sub_asides (c # cs) = c # sub_asides cs"
        using True Nil by (simp del: dropWhile_eq_Nil_conv)
      then show ?thesis using 2(1) [OF True Nil] by simp
    next
      case (Cons x rest)
      have "length (filter P rest) \<le> length (filter P (x # rest))" by simp
      also have "\<dots> \<le> length (filter P cs)"
        using filter_dropWhile_le [of P "\<lambda>x. x \<noteq> 42" cs] Cons by simp
      finally show ?thesis using True Cons 2(2) [OF True Cons] by simp
    qed
  qed
qed


lemma filter_split_from_le:
  "(\<Sum>s\<leftarrow>split_from prev cur t. length (filter P s)) \<le> length (filter P cur) + length (filter P t)"
proof (induction prev cur t rule: split_from.induct)
  case (1 prev cur)
  then show ?case by simp
next
  case (2 prev cur c cs)
  show ?case
  proof (cases "isspace c \<and> ends_sentence prev")
    case True
    have "length (filter P (dropWhile isspace cs)) \<le> length (filter P cs)"
      by (rule filter_dropWhile_le)
    with True 2(1) [OF True] show ?thesis by simp
  next
    case False
    with 2(2) [OF False] show ?thesis by auto
  qed
qed

lemma filter_keep_sentences_le:
  "\<not> P 32 \<Longrightarrow>
   length (filter P (keep_sentences m result ss)) \<le>
     length (filter P result) + (\<Sum>s\<leftarrow>ss. length (filter P s))"
proof (induction ss arbitrary: result)
  case Nil
  then show ?case by simp
next
  case (Cons s ss)
  show ?case
  proof (cases "int (length (result @ s)) \<le> m")
    case True
    then show ?thesis using Cons.IH [OF Cons.prems, of "result @ s @ [32]"] Cons.prems by simp
  next
    case False
    then show ?thesis by simp
  qed
qed

lemma filter_clean_response_le:
  assumes "\<not> P 32"
  shows "length (filter P (clean_response cfg raw)) \<le> length (filter P (sub_asides (sub_astral raw)))"
proof -
  define t0 where "t0 = strip (sub_prefix (sub_asides (sub_astral raw)))"
  have t: "length (filter P t0) \<le> length (filter P (sub_asides (sub_astral raw)))"
    unfolding t0_def
    using filter_strip_le [of P "sub_prefix (sub_asides (sub_astral raw))"]
      filter_sub_prefix_le [of P "sub_asides (sub_astral raw)"] by linarith
  have "length (filter P (strip (keep_sentences m [] (split_sentences t0)))) \<le> length (filter P t0)" for m
  proof -
    have "length (filter P (strip (keep_sentences m [] (split_sentences t0))))
        \<le> length (filter P (keep_sentences m [] (split_sentences t0)))"
      by (rule filter_strip_le)
    also have "\<dots> \<le> (\<Sum>s\<leftarrow>split_sentences t0. length (filter P s))"
      using assms filter_keep_sentences_le [of P m "[]" "split_sentences t0"] by simp
    also have "\<dots> \<le> length (filter P t0)"
      using filter_split_from_le [of P None "[]" t0] by (simp add: split_sentences_def)
    finally show ?thesis .
  qed
  with t show ?thesis
    unfolding clean_response_def t0_def [symmetric] Let_def
    by (smt (verit) le_trans)
qed

lemma sub_astral_fixed: "filter (\<lambda>c. 0x10000 \<le> c \<and> c \<le> 0x10FFFF) t = [] \<Longrightarrow> sub_astral t = t"
  by (induction t) (auto simp: sub_astral_def split: if_splits)

lemma sub_astral_clean: "sub_astral (clean_response cfg raw) = clean_response cfg raw"
proof (rule sub_astral_fixed)
  let ?P = "\<lambda>c::nat. 0x10000 \<le> c \<and> c \<le> 0x10FFFF"
  have "length (filter ?P (clean_response cfg raw)) \<le> length (filter ?P (sub_asides (sub_astral raw)))"
    by (rule filter_clean_response_le) simp
  also have "\<dots> \<le> length (filter ?P (sub_astral raw))" by (rule filter_sub_asides_le)
  also have "\<dots> = 0" by (simp add: sub_astral_def)
  finally show "filter ?P (clean_response cfg raw) = []" by simp
qed

lemma sub_asides_fixed: "length (filter (\<lambda>c. c = 42) t) \<le> 1 \<Longrightarrow> sub_asides t = t"
proof (induction t rule: sub_asides.induct)
  case 1
  then show ?case by simp
next
  case (2 c cs)
  show ?case
  proof (cases "c = 42")
    case False
    with 2 show ?thesis by simp
  next
    case True
    with 2(4) have none: "filter (\<lambda>c. c = 42) cs = []" by simp
    then have Nil: "dropWhile (\<lambda>x. x \<noteq> 42) cs = []"
      by (auto simp: filter_empty_conv)
    have "sub_asides (c # cs) = c # sub_asides cs"
      using True Nil by (simp del: dropWhile_eq_Nil_conv)
    then show ?thesis using 2(1) [OF True Nil] none by simp
  qed
qed

lemma one_star_sub_asides: "length (filter (\<lambda>c. c = 42) (sub_asides t)) \<le> 1"
proof (induction t rule: sub_asides.induct)
  case 1
  then show ?case by simp
next
  case (2 c cs)
  show ?case
  proof (cases "c = 42")
    case False
    with 2 show ?thesis by simp
  next
    case True
    show ?thesis
    proof (cases "dropWhile (\<lambda>x. x \<noteq> 42) cs")
      case Nil
      then have "filter (\<lambda>c. c = 42) cs = []" by (auto simp: filter_empty_conv)
      then have "length (filter (\<lambda>c. c = 42) (sub_asides cs)) = 0"
        using filter_sub_asides_le [of "\<lambda>c. c = 42" cs] by simp
      moreover have "sub_asides (c # cs) = c # sub_asides cs"
        using True Nil by (simp del: dropWhile_eq_Nil_conv)
      ultimately show ?thesis by simp
    next
      case (Cons x rest)
      with True 2(2) [OF True Cons] show ?thesis by simp
    qed
  qed
qed

lemma sub_asides_clean: "sub_asides (clean_response cfg raw) = clean_response cfg raw"
proof (rule sub_asides_fixed)
  have "length (filter (\<lambda>c. c = 42) (clean_response cfg raw))
      \<le> length (filter (\<lambda>c. c = 42) (sub_asides (sub_astral raw)))"
    by (rule filter_clean_response_le) simp
  also have "\<dots> \<le> 1" by (rule one_star_sub_asides)
  finally show "length (filter (\<lambda>c. c = 42) (clean_response cfg raw)) \<le> 1" .
qed

lemma strip_clean: "strip (clean_response cfg raw) = clean_response cfg raw"
  by (simp add: clean_response_def Let_def strip_strip)

lemma keep_sentences_shape:
  "result = [] \<or> (int (length result) \<le> m + 1 \<and> last result = 32) \<Longrightarrow>
   keep_sentences m result ss = [] \<or>
   (int (length (keep_sentences m result ss)) \<le> m + 1 \<and> last (keep_sentences m result ss) = 32)"
proof (induction ss arbitrary: result)
  case Nil
  then show ?case by simp
next
  case (Cons s ss)
  show ?case
  proof (cases "int (length (result @ s)) \<le> m")
    case True
    have "int (length (result @ s @ [32])) \<le> m + 1 \<and> last (result @ s @ [32]) = 32"
      using True by simp
    then show ?thesis using Cons.IH [of "result @ s @ [32]"] True by simp
  next
    case False
    then show ?thesis using Cons.prems by simp
  qed
qed

lemma length_kept:
  assumes "0 \<le> m"
  shows "int (length (strip (keep_sentences m [] ss))) \<le> m"
proof -
  let ?r = "keep_sentences m [] ss"
  from keep_sentences_shape [of "[]" m ss]
  consider "?r = []" | "int (length ?r) \<le> m + 1" "last ?r = 32" "?r \<noteq> []" by auto
  then show ?thesis
  proof cases
    case 1
    then show ?thesis using assms by (simp add: strip_Nil)
  next
    case 2
    then have r: "?r = butlast ?r @ [32]" by (metis append_butlast_last_id)
    have "isspace 32" by (simp add: isspace_def)
    then have "strip ?r = strip (butlast ?r)" using r strip_snoc_space by metis
    then have "length (strip ?r) \<le> length (butlast ?r)"
      using length_strip_le [of "butlast ?r"] by simp
    moreover have "length ?r > 0" using 2(3) by simp
    ultimately show ?thesis using 2(1) by (simp only: length_butlast)
  qed
qed

lemma nothing_kept: "m < 0 \<Longrightarrow> keep_sentences m [] ss = []"
  by (cases ss) auto

lemma length_clean_response:
  "0 \<le> max_response_length cfg \<Longrightarrow>
   int (length (clean_response cfg raw)) \<le> max_response_length cfg"
  by (simp add: clean_response_def Let_def length_kept)

lemma clean_response_negative:
  "max_response_length cfg < 0 \<Longrightarrow> clean_response cfg raw = []"
  by (simp add: clean_response_def Let_def nothing_kept strip_Nil)

lemma clean_idem:
  assumes "sub_prefix (clean_response cfg raw) = clean_response cfg raw"
  shows "clean_response cfg (clean_response cfg raw) = clean_response cfg raw"
proof -
  let ?s = "clean_response cfg raw"
  have same: "strip (sub_prefix (sub_asides (sub_astral ?s))) = ?s"
    by (simp add: sub_astral_clean sub_asides_clean assms strip_clean)
  show ?thesis
  proof (cases "0 \<le> max_response_length cfg")
    case True
    then have "\<not> int (length ?s) > max_response_length cfg"
      using length_clean_response [of cfg raw] by simp
    then show ?thesis
      by (subst clean_response_def) (simp add: same Let_def)
  next
    case False
    then have "max_response_length cfg < 0" by simp
    then show ?thesis by (simp only: clean_response_negative)
  qed
qed

lemmas clean_eval =
  clean_response_def py_def sub_astral_def sub_prefix_def strip_def isspace_def
  split_sentences_def ends_sentence_def Let_def

text \<open>
  C5 (amended). With a maximum length of 40 the sanitizer turns the input
  \<open>Nova: *giggles* I'm *so* happy to see you! Extra sentence overflow here.\<close> into
  \<open>I'm  happy to see you!\<close>, with two spaces between \<open>I'm\<close> and \<open>happy\<close>: deleting the
  span \<open>*so*\<close> leaves the space on either side of it, and no step joins them.
\<close>

theorem clean_response_nova:
  "clean_response \<lparr>max_response_length = 40\<rparr> nova = py ''I'm  happy to see you!''"
  by (simp add: nova_def clean_eval)

text \<open>
  C5 as stated fails: the result is not the string with a single space,
  \<open>I'm happy to see you!\<close>.
\<close>

theorem clean_response_nova_single_space:
  "clean_response \<lparr>max_response_length = 40\<rparr> nova \<noteq> py ''I'm happy to see you!''"
  by (simp add: nova_def clean_eval)

text \<open>
  C8 (amended). On every string \<open>s\<close> in the image of the sanitizer that does not itself
  begin with a speaker prefix (the prefix step leaves \<open>s\<close> as it is), the sanitizer is
  the identity: \<open>clean(s) = s\<close>.
\<close>

theorem clean_response_idempotent:
  assumes "sub_prefix (clean_response cfg raw) = clean_response cfg raw"
  shows "clean_response cfg (clean_response cfg raw) = clean_response cfg raw"
  using assms by (rule clean_idem)

theorem clean_response_idempotent_witness:
  "sub_prefix (clean_response \<lparr>max_response_length = 40\<rparr> nova) =
     clean_response \<lparr>max_response_length = 40\<rparr> nova \<and>
   clean_response \<lparr>max_response_length = 40\<rparr> (clean_response \<lparr>max_response_length = 40\<rparr> nova) =
     clean_response \<lparr>max_response_length = 40\<rparr> nova"
proof -
  have h: "sub_prefix (clean_response \<lparr>max_response_length = 40\<rparr> nova) =
      clean_response \<lparr>max_response_length = 40\<rparr> nova"
    by (simp add: nova_def clean_eval)
  show ?thesis using h clean_response_idempotent [OF h] by simp
qed

text \<open>
  C8 as stated fails: \<open>b: c\<close> is the sanitizer's result on \<open>a: b: c\<close>, one prefix being
  stripped per pass, and the sanitizer turns \<open>b: c\<close> into \<open>c\<close>.
\<close>

theorem clean_response_not_idempotent:
  "clean_response \<lparr>max_response_length = 100\<rparr>
     (clean_response \<lparr>max_response_length = 100\<rparr> (py ''a: b: c'')) \<noteq>
   clean_response \<lparr>max_response_length = 100\<rparr> (py ''a: b: c'')"
  by (simp add: clean_eval)

section \<open>Properties of the generation client\<close>

lemma range_3: "[0..<3] = [0, 1, 2]"
  by (simp add: upt_rec)

lemma range_max_retries: "[0..<max_retries] = [0, 1, 2]"
  by (simp add: max_retries_def range_3)

lemma attempts_never_complete:
  "as \<noteq> [] \<Longrightarrow> last as = max_retries - 1 \<Longrightarrow> fst (attempts cfg api as tr) \<noteq> Completed"
proof (induction as arbitrary: tr)
  case Nil
  then show ?case by simp
next
  case (Cons a as)
  show ?case
  proof (cases "as = []")
    case True
    with Cons.prems show ?thesis
      by (auto simp: Let_def split: outcome.splits body.splits)
  next
    case False
    with Cons.prems have "last as = max_retries - 1" by simp
    from Cons.IH [OF False this] show ?thesis
      by (auto simp: Let_def split: outcome.splits body.splits)
  qed
qed

lemma call_returned:
  "fst (attempts cfg api [0..<max_retries]
          (track_workflow (py ''API'') (py ''Starting API call for: '' @ take 50 msg @ py ''...'') tr)) = Returned r \<Longrightarrow>
   fst (call_deepseek_api cfg api msg tr) = Some r"
  by (auto simp: call_deepseek_api_def Let_def split: prod.splits flow.splits)

lemma call_raised:
  "fst (attempts cfg api [0..<max_retries]
          (track_workflow (py ''API'') (py ''Starting API call for: '' @ take 50 msg @ py ''...'') tr)) = Raised e \<Longrightarrow>
   fst (call_deepseek_api cfg api msg tr) = Some apology"
  by (auto simp: call_deepseek_api_def Let_def split: prod.splits flow.splits)

lemmas call_eval =
  call_deepseek_api_def range_3 max_retries_def track_error_def track_workflow_def
  Let_def

text \<open>
  C2 (amended). When all three attempts end in a timeout, the call returns the fixed
  apology string as an ordinary result (no exception leaves it) and puts exactly four
  messages on the error queue: one for each attempt that timed out, and one for the
  failure of the whole call.
\<close>

theorem call_deepseek_api_three_timeouts:
  assumes "api 0 = Timeout e0" and "api 1 = Timeout e1" and "api 2 = Timeout e2"
  shows "fst (call_deepseek_api cfg api msg tr) = Some apology \<and>
         error_queue (snd (call_deepseek_api cfg api msg tr)) =
           error_queue tr @
             [py ''Timeout on attempt 1: '' @ e0, py ''Timeout on attempt 2: '' @ e1,
              py ''Timeout on attempt 3: '' @ e2,
              py ''API call failed after 3 attempts: '' @ e2] \<and>
         length (error_queue (snd (call_deepseek_api cfg api msg tr))) =
           length (error_queue tr) + 4"
  using assms by (simp add: call_eval py_def str_nat.simps)

theorem call_deepseek_api_three_timeouts_witness:
  "fst (call_deepseek_api cap40 always_timeout (py ''hi'') no_tracking) = Some apology \<and>
   length (error_queue (snd (call_deepseek_api cap40 always_timeout (py ''hi'') no_tracking))) = 4"
  using call_deepseek_api_three_timeouts
    [of always_timeout "py ''timed out''" "py ''timed out''" "py ''timed out''" cap40 "py ''hi''" no_tracking]
  by (simp add: always_timeout_def no_tracking_def)

text \<open>
  C2 as stated fails: after three timeouts the error queue holds four messages, not three.
\<close>

theorem call_deepseek_api_three_timeouts_count:
  "length (error_queue (snd (call_deepseek_api cap40 always_timeout (py ''hi'') no_tracking))) \<noteq> 3"
  by (simp add: call_eval always_timeout_def no_tracking_def)

lemma attempts_first_success:
  "(\<forall>j\<in>set pre. retried (api j) \<and> j \<noteq> max_retries - 1) \<Longrightarrow>
   api i = Response 200 t (Content c) \<Longrightarrow>
   fst (attempts cfg api (pre @ i # post) tr) = Returned (clean_response cfg c)"
proof (induction pre arbitrary: tr)
  case Nil
  then show ?case by (simp add: Let_def)
next
  case (Cons a pre)
  then have r: "retried (api a)" and l: "a \<noteq> max_retries - 1" by simp_all
  have IH: "fst (attempts cfg api (pre @ i # post) tr') = Returned (clean_response cfg c)" for tr'
    using Cons by simp
  show ?case
  proof (cases "api a")
    case (Response status_code rtext b)
    with r have "status_code \<noteq> 200" by (simp add: retried_def)
    with Response l IH show ?thesis by (simp add: Let_def)
  next
    case (Timeout e)
    with l IH show ?thesis by (simp add: Let_def)
  next
    case (Failure e)
    with r show ?thesis by (simp add: retried_def)
  qed
qed

lemma attempts_returned_first:
  "fst (attempts cfg api as tr) = Returned r \<Longrightarrow>
   \<exists>pre i post t c. as = pre @ i # post \<and> (\<forall>j\<in>set pre. retried (api j)) \<and>
      api i = Response 200 t (Content c) \<and> r = clean_response cfg c"
proof (induction as arbitrary: tr)
  case Nil
  then show ?case by simp
next
  case (Cons a as)
  have step: ?case
    if "retried (api a)" and "fst (attempts cfg api as tr') = Returned r" for tr'
  proof -
    from Cons.IH [OF that(2)] obtain pre i post t c where
      "as = pre @ i # post" "\<forall>j\<in>set pre. retried (api j)"
      "api i = Response 200 t (Content c)" "r = clean_response cfg c" by blast
    then have "a # as = (a # pre) @ i # post \<and> (\<forall>j\<in>set (a # pre). retried (api j)) \<and>
      api i = Response 200 t (Content c) \<and> r = clean_response cfg c"
      using that(1) by simp
    then show ?thesis by blast
  qed
  show ?case
  proof (cases "api a")
    case (Response status_code rtext b)
    show ?thesis
    proof (cases "status_code = 200")
      case True
      with Response Cons.prems obtain c where "b = Content c" "r = clean_response cfg c"
        by (cases b) (auto simp: Let_def)
      with Response True have "a # as = [] @ a # as \<and> (\<forall>j\<in>set []. retried (api j)) \<and>
        api a = Response 200 rtext (Content c) \<and> r = clean_response cfg c" by simp
      then show ?thesis by blast
    next
      case False
      with Response have "retried (api a)" by (simp add: retried_def)
      moreover from False Response Cons.prems
      have "\<exists>tr'. fst (attempts cfg api as tr') = Returned r"
        by (auto simp: Let_def split: if_splits)
      ultimately show ?thesis using step by blast
    qed
  next
    case (Timeout e)
    then have "retried (api a)" by (simp add: retried_def)
    moreover from Timeout Cons.prems
    have "\<exists>tr'. fst (attempts cfg api as tr') = Returned r"
      by (auto simp: Let_def split: if_splits)
    ultimately show ?thesis using step by blast
  next
    case (Failure e)
    with Cons.prems show ?thesis by (simp add: Let_def)
  qed
qed

lemma upt_split:
  assumes "[0..<n] = pre @ i # post"
  shows "i < n \<and> pre = [0..<i]"
proof -
  have len: "length pre < n" using arg_cong [OF assms, of length] by simp
  have "[0..<n] ! length pre = i" using assms by (simp add: nth_append)
  then have i: "i = length pre" using len by simp
  have "take (length pre) [0..<n] = pre" using assms by simp
  then have "pre = [0..<length pre]" using len by (simp add: take_upt)
  with i len show ?thesis by simp
qed


lemma first_success_returned:
  assumes "i < max_retries" and "\<forall>j<i. retried (api j)" and "api i = Response 200 t (Content c)"
  shows "fst (call_deepseek_api cfg api msg tr) = Some (clean_response cfg c)"
proof -
  have "[0..<i + (max_retries - i)] = [0..<i] @ [i..<i + (max_retries - i)]"
    by (rule upt_add_eq_append) simp
  then have s: "[0..<max_retries] = [0..<i] @ i # [Suc i..<max_retries]"
    using assms(1) by (simp add: upt_conv_Cons)
  have p: "\<forall>j\<in>set [0..<i]. retried (api j) \<and> j \<noteq> max_retries - 1"
    using assms(1,2) by auto
  have "fst (attempts cfg api ([0..<i] @ i # [Suc i..<max_retries]) tr') =
      Returned (clean_response cfg c)" for tr'
    using p assms(3) by (rule attempts_first_success)
  then have "fst (attempts cfg api [0..<max_retries] tr') = Returned (clean_response cfg c)" for tr'
    using s by simp
  then show ?thesis by (rule call_returned)
qed

lemma no_success_apology:
  assumes "\<not> (\<exists>i t c. i < max_retries \<and> (\<forall>j<i. retried (api j)) \<and> api i = Response 200 t (Content c))"
  shows "fst (call_deepseek_api cfg api msg tr) = Some apology"
proof -
  define tr0 where
    "tr0 = track_workflow (py ''API'') (py ''Starting API call for: '' @ take 50 msg @ py ''...'') tr"
  show ?thesis
  proof (cases "fst (attempts cfg api [0..<max_retries] tr0)")
    case (Returned r)
    then obtain pre i post t c where s: "[0..<max_retries] = pre @ i # post"
      and p: "\<forall>j\<in>set pre. retried (api j)" and a: "api i = Response 200 t (Content c)"
      using attempts_returned_first by blast
    from upt_split [OF s] have "i < max_retries" "pre = [0..<i]" by simp_all
    with p a assms show ?thesis by auto
  next
    case (Raised e)
    then show ?thesis unfolding tr0_def by (simp add: call_raised)
  next
    case Completed
    moreover have "fst (attempts cfg api [0..<max_retries] tr0) \<noteq> Completed"
      by (rule attempts_never_complete) (simp_all add: range_max_retries max_retries_def)
    ultimately show ?thesis by simp
  qed
qed

text \<open>
  C6 (amended). What the call returns is decided by the attempts. When an attempt is
  answered with status 200 and a content, every earlier attempt having been retried,
  the call returns the sanitizer's result on that content. In every other case it
  returns the fixed apology string as it is written in the program, which is not passed
  through the sanitizer.
\<close>

theorem call_deepseek_api_result:
  "(\<forall>i t c. i < max_retries \<longrightarrow> (\<forall>j<i. retried (api j)) \<longrightarrow> api i = Response 200 t (Content c) \<longrightarrow>
      fst (call_deepseek_api cfg api msg tr) = Some (clean_response cfg c)) \<and>
   (\<not> (\<exists>i t c. i < max_retries \<and> (\<forall>j<i. retried (api j)) \<and> api i = Response 200 t (Content c)) \<longrightarrow>
      fst (call_deepseek_api cfg api msg tr) = Some apology)"
  using first_success_returned no_success_apology by blast

theorem call_deepseek_api_result_witness:
  "retried (second_try 0) \<and> second_try 1 = Response 200 [] (Content nova) \<and>
   fst (call_deepseek_api cap40 second_try (py ''hi'') no_tracking) =
     Some (py ''I'm  happy to see you!'') \<and>
   fst (call_deepseek_api cap40 always_timeout (py ''hi'') no_tracking) = Some apology"
proof -
  have a: "(1::nat) < max_retries" "\<forall>j<1. retried (second_try j)"
    "second_try 1 = Response 200 [] (Content nova)"
    by (simp_all add: max_retries_def second_try_def retried_def)
  have b: "\<not> (\<exists>i t c. i < max_retries \<and> (\<forall>j<i. retried (always_timeout j)) \<and>
      always_timeout i = Response 200 t (Content c))"
    by (simp add: always_timeout_def)
  have c: "clean_response cap40 nova = py ''I'm  happy to see you!''"
    by (simp add: cap40_def nova_def clean_eval)
  have "fst (call_deepseek_api cap40 second_try (py ''hi'') no_tracking) =
      Some (clean_response cap40 nova)"
    using call_deepseek_api_result [of second_try cap40 "py ''hi''" no_tracking] a by blast
  moreover have "fst (call_deepseek_api cap40 always_timeout (py ''hi'') no_tracking) = Some apology"
    using call_deepseek_api_result [of always_timeout cap40 "py ''hi''" no_tracking] b by blast
  ultimately show ?thesis using a c by simp
qed

text \<open>
  C6 as stated fails on the fallback: with a maximum length of 40 the string returned
  after three timeouts has 112 characters, and the sanitizer returns no string longer
  than 40.
\<close>

theorem fallback_not_sanitized:
  "\<not> (\<exists>raw. fst (call_deepseek_api cap40 always_timeout (py ''hi'') no_tracking) =
           Some (clean_response cap40 raw))"
proof
  assume "\<exists>raw. fst (call_deepseek_api cap40 always_timeout (py ''hi'') no_tracking) =
           Some (clean_response cap40 raw)"
  then obtain raw where
    r: "fst (call_deepseek_api cap40 always_timeout (py ''hi'') no_tracking) =
          Some (clean_response cap40 raw)" ..
  have "fst (call_deepseek_api cap40 always_timeout (py ''hi'') no_tracking) = Some apology"
    by (simp add: call_eval always_timeout_def no_tracking_def)
  with r have "clean_response cap40 raw = apology" by simp
  moreover have "int (length (clean_response cap40 raw)) \<le> 40"
    using length_clean_response [of cap40 raw] by (simp add: cap40_def)
  moreover have "length apology = 112" by (simp add: apology_def py_def)
  ultimately show False by simp
qed


section \<open>Properties of the response cache\<close>

lemma split_words_spaces: "\<forall>c\<in>set t. isspace c \<Longrightarrow> split_words [] t = []"
  by (induction t) auto

lemma compute_similarity_total: "\<exists>r. compute_similarity lower s1 s2 = Inr r"
  by (simp add: compute_similarity_def true_div_def Let_def)

lemma compute_similarity_empty:
  "split (lower s1) = [] \<Longrightarrow> compute_similarity lower s1 s2 = Inr 0"
  by (auto simp: compute_similarity_def true_div_def Let_def)

lemma get_items_zero:
  "\<forall>k. compute_similarity lower query k = Inr 0 \<Longrightarrow> 0 \<le> threshold \<Longrightarrow>
   get_items lower threshold query items = Inr None"
  by (induction items) auto

lemma length_update_le: "length (AList.update k v al) \<le> Suc (length al)"
  by (induction al) auto

lemma length_delete_hd: "length (AList.delete k ((k, v) # al)) \<le> length al"
  by (simp add: AList.delete_eq)

lemma add_bounded:
  assumes "add self query response = Inr self'"
    and "int (length (cache self)) \<le> cache_size self"
  shows "int (length (cache self')) \<le> cache_size self' \<and> cache_size self' = cache_size self"
proof (cases "int (length (cache self)) \<ge> cache_size self")
  case True
  with assms(1) obtain oldest v rest where c: "cache self = (oldest, v) # rest"
    and s: "self' = self\<lparr>cache := AList.update query response (AList.delete oldest (cache self))\<rparr>"
    by (auto simp: add_def split: list.splits)
  have "length (AList.update query response (AList.delete oldest (cache self)))
      \<le> Suc (length (AList.delete oldest (cache self)))"
    by (rule length_update_le)
  also have "\<dots> \<le> Suc (length rest)" using length_delete_hd [of oldest v rest] c by simp
  also have "\<dots> = length (cache self)" using c by simp
  finally show ?thesis using s assms(2) by simp
next
  case False
  with assms(1) have s: "self' = self\<lparr>cache := AList.update query response (cache self)\<rparr>"
    by (auto simp: add_def)
  show ?thesis using s False length_update_le [of query response "cache self"] by simp
qed

lemma add_distinct:
  assumes "add self query response = Inr self'" and "distinct (map fst (cache self))"
  shows "distinct (map fst (cache self'))"
  using assms
  by (auto simp: add_def distinct_update distinct_delete split: if_splits list.splits)

lemma add_all_invariant:
  "int (length (cache self)) \<le> cache_size self \<Longrightarrow> distinct (map fst (cache self)) \<Longrightarrow>
   int (length (cache (add_all self ops))) \<le> cache_size self \<and>
   distinct (map fst (cache (add_all self ops)))"
proof (induction ops arbitrary: self)
  case Nil
  then show ?case by simp
next
  case (Cons op ops)
  obtain query response where op: "op = (query, response)" by (cases op)
  show ?case
  proof (cases "add self query response")
    case (Inl e)
    then show ?thesis using Cons op by simp
  next
    case (Inr self')
    have "int (length (cache self')) \<le> cache_size self'" "cache_size self' = cache_size self"
      using add_bounded [OF Inr Cons.prems(1)] by simp_all
    moreover have "distinct (map fst (cache self'))"
      using add_distinct [OF Inr Cons.prems(2)] .
    ultimately show ?thesis using Cons.IH [of self'] Inr op by simp
  qed
qed

lemmas cache_eval =
  ResponseCache_def add_def get_def compute_similarity_def split_def true_div_def
  ascii_lower_def py_def isspace_def Let_def

text \<open>
  C9. For a configured capacity that is not negative, after any sequence of inserts
  into a new cache the number of entries is at most the capacity, and no two entries
  have the same key.
\<close>

theorem cache_within_capacity:
  assumes "0 \<le> capacity"
  shows "int (length (cache (add_all (ResponseCache capacity threshold) ops))) \<le> capacity \<and>
         distinct (map fst (cache (add_all (ResponseCache capacity threshold) ops)))"
  using add_all_invariant [of "ResponseCache capacity threshold" ops] assms
  by (simp add: ResponseCache_def)

theorem cache_within_capacity_witness:
  "cache (add_all (ResponseCache 2 (4 / 5))
            [(py ''a'', py ''1''), (py ''b'', py ''2''), (py ''a'', py ''3''), (py ''c'', py ''4'')]) =
     [(py ''a'', py ''3''), (py ''c'', py ''4'')] \<and>
   int (length (cache (add_all (ResponseCache 2 (4 / 5))
            [(py ''a'', py ''1''), (py ''b'', py ''2''), (py ''a'', py ''3''), (py ''c'', py ''4'')]))) \<le> 2 \<and>
   distinct (map fst (cache (add_all (ResponseCache 2 (4 / 5))
            [(py ''a'', py ''1''), (py ''b'', py ''2''), (py ''a'', py ''3''), (py ''c'', py ''4'')])))"
proof -
  have h: "(0::int) \<le> 2" by simp
  have "cache (add_all (ResponseCache 2 (4 / 5))
            [(py ''a'', py ''1''), (py ''b'', py ''2''), (py ''a'', py ''3''), (py ''c'', py ''4'')]) =
     [(py ''a'', py ''3''), (py ''c'', py ''4'')]"
    by (simp add: cache_eval AList.delete_eq)
  then show ?thesis
    using cache_within_capacity [OF h, of "4 / 5"
        "[(py ''a'', py ''1''), (py ''b'', py ''2''), (py ''a'', py ''3''), (py ''c'', py ''4'')]"]
    by simp
qed

text \<open>
  C10. The similarity never fails on a zero divisor: it always returns a number, and
  the number is 0 when both strings split into no words. So, for a threshold that is not
  negative, a lookup with a query of whitespace only returns none whatever the cache
  holds, the same whitespace-only key included. (\<open>lower\<close> is \<open>str.lower\<close>, which leaves
  a whitespace-only string as it is.)
\<close>

theorem compute_similarity_guarded:
  "(\<exists>r. compute_similarity lower s1 s2 = Inr r) \<and>
   (split (lower s1) = [] \<longrightarrow> split (lower s2) = [] \<longrightarrow> compute_similarity lower s1 s2 = Inr 0) \<and>
   ((\<forall>c\<in>set query. isspace c) \<longrightarrow> lower query = query \<longrightarrow> 0 \<le> similarity_threshold self \<longrightarrow>
      get lower self query = Inr None)"
proof (intro conjI impI)
  show "\<exists>r. compute_similarity lower s1 s2 = Inr r" by (rule compute_similarity_total)
next
  assume "split (lower s1) = []"
  then show "compute_similarity lower s1 s2 = Inr 0" by (rule compute_similarity_empty)
next
  assume "\<forall>c\<in>set query. isspace c" and "lower query = query" and t: "0 \<le> similarity_threshold self"
  then have "split (lower query) = []" by (simp add: split_def split_words_spaces)
  then have "\<forall>k. compute_similarity lower query k = Inr 0"
    by (simp add: compute_similarity_empty)
  then show "get lower self query = Inr None"
    unfolding get_def using t by (rule get_items_zero)
qed

theorem compute_similarity_guarded_witness:
  "compute_similarity ascii_lower (py ''  '') [] = Inr 0 \<and>
   add (ResponseCache 100 (4 / 5)) (py ''  '') (py ''hi'') = Inr whitespace_cached \<and>
   get ascii_lower whitespace_cached (py ''  '') = Inr None"
proof -
  have a: "split (ascii_lower (py ''  '')) = []" "split (ascii_lower []) = []"
    by (simp_all add: cache_eval)
  have b: "\<forall>c\<in>set (py ''  ''). isspace c" "ascii_lower (py ''  '') = py ''  ''"
    "0 \<le> similarity_threshold whitespace_cached"
    by (simp_all add: cache_eval whitespace_cached_def)
  have c: "add (ResponseCache 100 (4 / 5)) (py ''  '') (py ''hi'') = Inr whitespace_cached"
    by (simp add: cache_eval whitespace_cached_def)
  show ?thesis
    using compute_similarity_guarded [of ascii_lower "py ''  ''" "[]" "py ''  ''" whitespace_cached]
      a b c by simp
qed


section \<open>Properties of the orchestrator\<close>

lemma response_cache_write_subtitle: "response_cache (write_subtitle w t self) = response_cache self"
  by (simp add: write_subtitle_def split: option.splits)

lemma response_cache_text_to_speech:
  "response_cache (text_to_speech_async w t self) = response_cache self"
  by (simp add: text_to_speech_async_def Let_def split: tts_result.splits)

lemma response_cache_process_message:
  "response_cache (process_message w item self) = response_cache self"
  by (simp add: process_message_def Let_def response_cache_write_subtitle
      response_cache_text_to_speech split: prod.splits option.splits)

lemma rate_limit_sleep_covers_delay:
  "last_response_time self + rate_limit_delay self \<le>
     current_time + rate_limit_sleep self current_time"
  by (simp add: rate_limit_sleep_def)

lemma process_message_stamp:
  "last_response_time (process_message w item self) = time_leave w \<and>
   rate_limit_delay (process_message w item self) = rate_limit_delay self"
  by (simp add: process_message_def Let_def write_subtitle_def text_to_speech_async_def
      split: prod.splits option.splits tts_result.splits)

text \<open>
  C4 (amended). Of two tasks that run back to back, the second may enter the critical
  section as soon as the first has left it; the rate-limit sleep is taken inside. The
  second task leaves that sleep at its entry reading or at the first task's completion
  stamp plus the delay, whichever is later. So, when the first task's completion stamp
  is not earlier than the reading at which that task left its own sleep, the two tasks
  leave the rate-limit sleep at least the delay apart.
\<close>

theorem rate_limit_gate:
  "gate_passed (process_message w1 item1 self) w2 =
     max (time_enter w2) (time_leave w1 + rate_limit_delay self) \<and>
   (gate_passed self w1 \<le> time_leave w1 \<longrightarrow>
      rate_limit_delay self \<le> gate_passed (process_message w1 item1 self) w2 - gate_passed self w1)"
proof -
  have g: "gate_passed (process_message w1 item1 self) w2 =
      max (time_enter w2) (time_leave w1 + rate_limit_delay self)"
    by (simp add: gate_passed_def rate_limit_sleep_def process_message_stamp max_def)
  then show ?thesis by (simp add: max_def)
qed

theorem rate_limit_gate_witness:
  "gate_passed (AIVtuber cap40) quick = 10 \<and> time_leave quick = 51 / 5 \<and>
   gate_passed (process_message quick greeting (AIVtuber cap40)) following = 56 / 5 \<and>
   rate_limit_delay (AIVtuber cap40) \<le>
     gate_passed (process_message quick greeting (AIVtuber cap40)) following -
     gate_passed (AIVtuber cap40) quick"
proof -
  have a: "gate_passed (AIVtuber cap40) quick = 10" "time_leave quick = 51 / 5"
    "time_enter following = 51 / 5" "rate_limit_delay (AIVtuber cap40) = 1"
    by (simp_all add: gate_passed_def rate_limit_sleep_def AIVtuber_def quick_def following_def)
  then have h: "gate_passed (AIVtuber cap40) quick \<le> time_leave quick" by simp
  show ?thesis
    using rate_limit_gate [of quick greeting "AIVtuber cap40" following] h a by simp
qed

text \<open>
  C4 as stated fails: the second task enters the critical section at 10.2, before the
  delay of 1 has passed since the first task's completion stamp of 10.2, and only 0.2
  after the first task's entry at 10; it then sleeps for 1 inside the critical section.
\<close>

theorem second_task_enters_early:
  "time_enter following <
     last_response_time (process_message quick greeting (AIVtuber cap40)) +
     rate_limit_delay (process_message quick greeting (AIVtuber cap40)) \<and>
   time_enter following - time_enter quick < rate_limit_delay (AIVtuber cap40) \<and>
   rate_limit_sleep (process_message quick greeting (AIVtuber cap40)) (time_enter following) = 1"
  by (simp add: process_message_stamp rate_limit_sleep_def AIVtuber_def quick_def following_def)

text \<open>
  C1 (the program does not do this). \<open>process_message\<close> never reads the cache and never
  writes it. With the message \<open>hello there\<close> cached under the reply \<open>Hi!\<close>, the lookup
  would hit; the program calls the generation service all the same and shows its
  answer. After a message that is not cached, the cache is still empty.
\<close>

theorem process_message_bypasses_cache:
  "get ascii_lower (response_cache primed) (message greeting) = Inr (Some (py ''Hi!'')) \<and>
   output_txt (process_message answering greeting primed) = py ''Hey there'' \<and>
   workflow_queue (vt_tracking (process_message answering greeting primed)) =
     [(py ''API'', py ''Starting API call for: hello there...''),
      (py ''API'', py ''Attempt 1/3 with 15.0s timeout''),
      (py ''API'', py ''Success: Got response from API''),
      (py ''TTS'', py ''Converting text to speech: Hey there...'')] \<and>
   response_cache (process_message answering greeting primed) = response_cache primed \<and>
   cache (response_cache (process_message answering greeting (AIVtuber cap40))) = []"
proof -
  have hit: "get ascii_lower (response_cache primed) (message greeting) = Inr (Some (py ''Hi!''))"
    by (simp add: primed_def greeting_def cache_eval)
  have reply: "call_deepseek_api cap40 (service answering) (message greeting) no_tracking =
      (Some (py ''Hey there''),
       \<lparr>workflow_queue =
          [(py ''API'', py ''Starting API call for: hello there...''),
           (py ''API'', py ''Attempt 1/3 with 15.0s timeout''),
           (py ''API'', py ''Success: Got response from API'')],
        error_queue = []\<rparr>)"
    by (simp add: call_eval clean_eval answering_def greeting_def no_tracking_def cap40_def
        str_nat.simps)
  have run: "process_message answering greeting primed =
      primed\<lparr>vt_tracking :=
          \<lparr>workflow_queue =
             [(py ''API'', py ''Starting API call for: hello there...''),
              (py ''API'', py ''Attempt 1/3 with 15.0s timeout''),
              (py ''API'', py ''Success: Got response from API''),
              (py ''TTS'', py ''Converting text to speech: Hey there...'')],
           error_queue = []\<rparr>,
        output_txt := py ''Hey there'', last_response_time := 6\<rparr>"
    using reply
    by (simp add: process_message_def primed_def AIVtuber_def no_tracking_def
        write_subtitle_def text_to_speech_async_def track_workflow_def answering_def py_def)
  show ?thesis
    by (simp add: hit run response_cache_process_message AIVtuber_def ResponseCache_def)
qed

section \<open>Properties of the processing lock\<close>

lemma lock_invariant:
  "reachable s \<Longrightarrow>
   (stage_of s t \<noteq> Queued \<and> stage_of s t \<noteq> Done) = (processing_lock s = Some t)"
  unfolding reachable_def
proof (induction arbitrary: t rule: rtranclp_induct)
  case base
  then show ?case by (simp add: idle_def)
next
  case (step s s')
  note IH = step.IH
  from step.hyps(2) show ?case
  proof cases
    case (acquire u)
    then show ?thesis using IH [of t] IH [of u] by (cases "t = u") (simp_all add: move_def)
  next
    case (gate u)
    then show ?thesis using IH [of t] IH [of u] by (cases "t = u") (simp_all add: move_def)
  next
    case (response u)
    then show ?thesis using IH [of t] IH [of u] by (cases "t = u") (simp_all add: move_def)
  next
    case (no_response u)
    then show ?thesis using IH [of t] IH [of u] by (cases "t = u") (simp_all add: move_def)
  next
    case (subtitle u)
    then show ?thesis using IH [of t] IH [of u] by (cases "t = u") (simp_all add: move_def)
  next
    case (speech u)
    then show ?thesis using IH [of t] IH [of u] by (cases "t = u") (simp_all add: move_def)
  next
    case (release u)
    then show ?thesis using IH [of t] IH [of u] by (cases "t = u") (simp_all add: move_def)
  next
    case (abort u)
    then show ?thesis using IH [of t] IH [of u] by (cases "t = u") (simp_all add: move_def)
  next
    case (abandon u)
    then show ?thesis using IH [of t] IH [of u] by (cases "t = u") (simp_all add: move_def)
  qed
qed

lemma others_wait:
  assumes "reachable s" and "stage_of s a = Synthesizing" and "b \<noteq> a"
  shows "stage_of s b = Queued \<or> stage_of s b = Done"
proof -
  have "processing_lock s = Some a" using lock_invariant [OF assms(1), of a] assms(2) by simp
  then have "processing_lock s \<noteq> Some b" using assms(3) by simp
  then show ?thesis using lock_invariant [OF assms(1), of b] by auto
qed

lemma others_stay_out:
  assumes "reachable s" and "stage_of s a = Synthesizing" and "task_step s s'" and "b \<noteq> a"
  shows "stage_of s' b = Queued \<or> stage_of s' b = Done"
proof -
  have l: "processing_lock s = Some a" using lock_invariant [OF assms(1), of a] assms(2) by simp
  have own: "t = a" if "stage_of s t \<noteq> Queued" "stage_of s t \<noteq> Done" for t
    using lock_invariant [OF assms(1), of t] that l by simp
  have other: "b \<noteq> t" if "stage_of s t \<noteq> Queued" "stage_of s t \<noteq> Done" for t
    using own [OF that] assms(4) by simp
  note out = others_wait [OF assms(1,2,4)]
  from assms(3) show ?thesis
  proof cases
    case (acquire u)
    then show ?thesis using l by simp
  next
    case (gate u)
    then show ?thesis using other [of u] out by (simp add: move_def)
  next
    case (response u)
    then show ?thesis using other [of u] out by (simp add: move_def)
  next
    case (no_response u)
    then show ?thesis using other [of u] out by (simp add: move_def)
  next
    case (subtitle u)
    then show ?thesis using other [of u] out by (simp add: move_def)
  next
    case (speech u)
    then show ?thesis using other [of u] out by (simp add: move_def)
  next
    case (release u)
    then show ?thesis using other [of u] out by (simp add: move_def)
  next
    case (abort u)
    then show ?thesis using other [of u] out by (simp add: move_def)
  next
    case (abandon u)
    then show ?thesis using out by (cases "b = u") (simp_all add: move_def)
  qed
qed

lemma reachable_first_synthesizing: "reachable first_synthesizing"
proof -
  let ?q = "\<lambda>t::nat. Queued"
  have "task_step idle ((move idle 0 RateLimit)\<lparr>processing_lock := Some 0\<rparr>)"
    by (rule acquire) (simp_all add: idle_def)
  then have 1: "task_step idle \<lparr>processing_lock = Some 0, stage_of = ?q(0 := RateLimit)\<rparr>"
    by (simp add: move_def idle_def)
  have "task_step \<lparr>processing_lock = Some 0, stage_of = ?q(0 := RateLimit)\<rparr>
      (move \<lparr>processing_lock = Some 0, stage_of = ?q(0 := RateLimit)\<rparr> 0 Generating)"
    by (rule gate) simp
  then have 2: "task_step \<lparr>processing_lock = Some 0, stage_of = ?q(0 := RateLimit)\<rparr>
      \<lparr>processing_lock = Some 0, stage_of = ?q(0 := Generating)\<rparr>"
    by (simp add: move_def)
  have "task_step \<lparr>processing_lock = Some 0, stage_of = ?q(0 := Generating)\<rparr>
      (move \<lparr>processing_lock = Some 0, stage_of = ?q(0 := Generating)\<rparr> 0 Subtitle)"
    by (rule response) simp
  then have 3: "task_step \<lparr>processing_lock = Some 0, stage_of = ?q(0 := Generating)\<rparr>
      \<lparr>processing_lock = Some 0, stage_of = ?q(0 := Subtitle)\<rparr>"
    by (simp add: move_def)
  have "task_step \<lparr>processing_lock = Some 0, stage_of = ?q(0 := Subtitle)\<rparr>
      (move \<lparr>processing_lock = Some 0, stage_of = ?q(0 := Subtitle)\<rparr> 0 Synthesizing)"
    by (rule subtitle) simp
  then have 4: "task_step \<lparr>processing_lock = Some 0, stage_of = ?q(0 := Subtitle)\<rparr>
      first_synthesizing"
    by (simp add: move_def first_synthesizing_def)
  have "task_step\<^sup>*\<^sup>* idle \<lparr>processing_lock = Some 0, stage_of = ?q(0 := RateLimit)\<rparr>"
    using 1 by (rule r_into_rtranclp)
  then have "task_step\<^sup>*\<^sup>* idle \<lparr>processing_lock = Some 0, stage_of = ?q(0 := Generating)\<rparr>"
    using 2 by (rule rtranclp.rtrancl_into_rtrancl)
  then have "task_step\<^sup>*\<^sup>* idle \<lparr>processing_lock = Some 0, stage_of = ?q(0 := Subtitle)\<rparr>"
    using 3 by (rule rtranclp.rtrancl_into_rtrancl)
  then have "task_step\<^sup>*\<^sup>* idle first_synthesizing"
    using 4 by (rule rtranclp.rtrancl_into_rtrancl)
  then show ?thesis by (simp add: reachable_def)
qed

text \<open>
  C3 (amended). The processing lock is held over the whole body of \<open>process_message\<close>,
  the synthesis included. While one task is inside the synthesis, every other task is
  either still waiting for the lock or already finished, and this is still so after any
  step: the later task cannot pass the rate-limit gate, so the gate, the generation, the
  subtitle write and the synthesis of two tasks never interleave.
\<close>

theorem synthesis_excludes_other_tasks:
  assumes "reachable s" and "stage_of s a = Synthesizing" and "b \<noteq> a"
  shows "(stage_of s b = Queued \<or> stage_of s b = Done) \<and>
         (\<forall>s'. task_step s s' \<longrightarrow> stage_of s' b = Queued \<or> stage_of s' b = Done)"
  using assms others_wait others_stay_out by blast

theorem synthesis_excludes_other_tasks_witness:
  "reachable first_synthesizing \<and> stage_of first_synthesizing 0 = Synthesizing \<and>
   stage_of first_synthesizing 1 = Queued \<and>
   \<not> (\<exists>s'. task_step first_synthesizing s' \<and> stage_of s' 1 \<noteq> Queued \<and> stage_of s' 1 \<noteq> Done)"
proof -
  have a: "stage_of first_synthesizing 0 = Synthesizing" "stage_of first_synthesizing 1 = Queued"
    by (simp_all add: first_synthesizing_def)
  have b: "(1::nat) \<noteq> 0" by simp
  show ?thesis
    using synthesis_excludes_other_tasks [OF reachable_first_synthesizing a(1) b] a
      reachable_first_synthesizing
    by simp
qed

text \<open>
  C3 as stated fails: there is no reachable state in which task 0 is inside the synthesis
  and a step takes the queued task 1 through the lock to the rate-limit gate. A later
  task cannot pass the gate, write its subtitle or hand over its audio while an earlier
  one is synthesizing.
\<close>

theorem later_task_cannot_enter:
  "\<not> (\<exists>s s'. reachable s \<and> stage_of s 0 = Synthesizing \<and> task_step s s' \<and>
         stage_of s 1 = Queued \<and> stage_of s' 1 = RateLimit)"
proof
  assume "\<exists>s s'. reachable s \<and> stage_of s 0 = Synthesizing \<and> task_step s s' \<and>
         stage_of s 1 = Queued \<and> stage_of s' 1 = RateLimit"
  then obtain s s' where "reachable s" "stage_of s 0 = Synthesizing" "task_step s s'"
    and d: "stage_of s' 1 = RateLimit" by blast
  then have "stage_of s' 1 = Queued \<or> stage_of s' 1 = Done"
    by (intro others_stay_out [of s 0 s' 1]) simp_all
  with d show False by simp
qed

section \<open>Properties of the audio sink\<close>

lemma produce_many:
  "int (length (audio_queue p) + k) \<le> max_queue_size p \<Longrightarrow>
   player_step\<^sup>*\<^sup>* p (p\<lparr>audio_queue := audio_queue p @ replicate k (Some a)\<rparr>)"
proof (induction k arbitrary: p)
  case 0
  then show ?case by simp
next
  case (Suc k)
  then have nf: "\<not> full p" by (simp add: full_def)
  then have p: "play p a = p\<lparr>audio_queue := audio_queue p @ [Some a]\<rparr>" by (simp add: play_def)
  have 1: "player_step p (play p a)" by (rule produce)
  have "int (length (audio_queue (play p a)) + k) \<le> max_queue_size (play p a)"
    using Suc.prems p by simp
  from Suc.IH [OF this]
  have "player_step\<^sup>*\<^sup>* (play p a) (p\<lparr>audio_queue := audio_queue p @ replicate (Suc k) (Some a)\<rparr>)"
    by (simp add: p)
  with 1 show ?case by (rule converse_rtranclp_into_rtranclp)
qed

lemma reach_full_while_playing: "player_step\<^sup>*\<^sup>* (AudioPlayer 10) full_while_playing"
proof -
  define p1 where "p1 = (AudioPlayer 10)\<lparr>audio_thread := Waiting\<rparr>"
  define p3 where "p3 = (AudioPlayer 10)\<lparr>is_speaking := True, audio_thread := Playing\<rparr>"
  have "player_step (AudioPlayer 10) p1"
    unfolding p1_def by (rule loop_enter) (simp_all add: AudioPlayer_def)
  moreover have "player_step p1 (play p1 [])" by (rule produce)
  moreover have "player_step (play p1 [])
      ((play p1 [])\<lparr>audio_queue := [], is_speaking := True, audio_thread := Playing\<rparr>)"
    by (rule get_buffer [where a = "[]"]) (simp_all add: p1_def AudioPlayer_def play_def full_def)
  moreover have "(play p1 [])\<lparr>audio_queue := [], is_speaking := True, audio_thread := Playing\<rparr> = p3"
    by (simp add: p1_def p3_def AudioPlayer_def play_def full_def)
  ultimately have a: "player_step\<^sup>*\<^sup>* (AudioPlayer 10) p3"
    by (metis rtranclp.rtrancl_into_rtrancl rtranclp.rtrancl_refl)
  have "player_step\<^sup>*\<^sup>* p3 (p3\<lparr>audio_queue := audio_queue p3 @ replicate 10 (Some [])\<rparr>)"
    by (rule produce_many) (simp add: p3_def AudioPlayer_def)
  moreover have "p3\<lparr>audio_queue := audio_queue p3 @ replicate 10 (Some [])\<rparr> = full_while_playing"
    by (simp add: p3_def AudioPlayer_def full_while_playing_def)
  ultimately show ?thesis using a by simp
qed

lemma reach_blocked_in_put: "player_step\<^sup>*\<^sup>* full_while_playing blocked_in_put"
proof -
  define p5 where "p5 = full_while_playing\<lparr>should_stop := True, stop_call := Putting\<rparr>"
  define p6 where "p6 = p5\<lparr>is_speaking := False, audio_thread := LoopHead\<rparr>"
  have "player_step full_while_playing p5"
    unfolding p5_def by (rule stop_flag) (simp add: full_while_playing_def)
  moreover have "player_step p5 p6"
    unfolding p6_def by (rule played) (simp add: p5_def full_while_playing_def)
  moreover have "player_step p6 (p6\<lparr>audio_thread := Exited\<rparr>)"
    by (rule loop_exit) (simp_all add: p6_def p5_def full_while_playing_def)
  moreover have "p6\<lparr>audio_thread := Exited\<rparr> = blocked_in_put"
    by (simp add: p6_def p5_def full_while_playing_def blocked_in_put_def)
  ultimately show ?thesis
    by (metis rtranclp.rtrancl_into_rtrancl rtranclp.rtrancl_refl)
qed

lemma blocked_stays:
  assumes "player_step blocked_in_put p"
  shows "p = blocked_in_put"
  using assms
proof cases
  case (produce a)
  then show ?thesis by (simp add: play_def full_def blocked_in_put_def)
next
  case stop_put
  then show ?thesis by (simp add: full_def blocked_in_put_def)
qed (simp_all add: blocked_in_put_def)

lemma blocked_forever: "player_step\<^sup>*\<^sup>* blocked_in_put p \<Longrightarrow> p = blocked_in_put"
  by (induction rule: rtranclp_induct) (auto dest: blocked_stays)

text \<open>
  C7 (the program does not do this). \<open>stop\<close> can block for ever on a full queue. From
  a new player with room for ten buffers the threads reach the state in which the
  consumer plays a buffer and ten more are queued. When \<open>stop\<close> is called there, it sets
  \<open>should_stop\<close> and waits in \<open>put(None)\<close> for room in the queue; the consumer ends
  its playback, reads \<open>should_stop\<close> and leaves its loop without taking another
  buffer. From then on no step changes the state: the call of \<open>stop\<close> stays in \<open>put\<close>
  and never reaches its \<open>join\<close>.
\<close>

theorem stop_blocks_on_full_queue:
  "player_step\<^sup>*\<^sup>* (AudioPlayer 10) full_while_playing \<and>
   player_step\<^sup>*\<^sup>* full_while_playing blocked_in_put \<and>
   stop_call full_while_playing = Idle \<and> stop_call blocked_in_put = Putting \<and>
   \<not> (\<exists>p. player_step\<^sup>*\<^sup>* blocked_in_put p \<and> p \<noteq> blocked_in_put)"
  using reach_full_while_playing reach_blocked_in_put blocked_forever
  by (auto simp: full_while_playing_def blocked_in_put_def)

end
